theory Spec2Isabelle
  imports Complex_Main "HOL-Library.Sublist" "HOL-Library.Multiset"
begin

section \<open>Cloudflare R2 bucket cleanup: a shallow embedding of \<^verbatim>\<open>delete.py\<close>\<close>

text \<open>
  The script lists a bucket page by page, optionally keeps the image keys only, previews
  the selection, asks the operator to confirm and deletes in batches of 1000.
  The boto3 client, the console and the keyboard are outside the script; the model makes
  them explicit: every method takes the world (the remote store, the lines waiting on
  standard input, the effects performed so far) and returns it updated, together with
  either the exception that escaped or the value returned. The dictionaries exchanged with
  the client are records of the entries the script reads. The model covers the class
  \<^verbatim>\<open>R2BucketCleaner\<close>; \<^verbatim>\<open>main\<close>, which parses the command line and checks the configuration
  before it calls \<^verbatim>\<open>clean_bucket\<close>, is not part of it.
\<close>

subsection \<open>Strings\<close>

text \<open>
  A Python \<^verbatim>\<open>str\<close> is modelled by its UTF-8 bytes. \<^verbatim>\<open>str.lower\<close> is modelled on the ASCII
  letters only. For \<^verbatim>\<open>filter_images\<close> nothing is lost: the suffixes tested are ASCII, and the
  only non-ASCII letters whose lower-case form contains an ASCII letter are U+212A (giving
  \<^verbatim>\<open>k\<close>, which occurs in no suffix) and U+0130 (giving \<^verbatim>\<open>i\<close> followed by U+0307, which
  occurs in no suffix either). \<^verbatim>\<open>str.strip\<close> is modelled on the ASCII white space of
  \<^verbatim>\<open>str.isspace\<close>: the code points 9 to 13, 28 to 31 and 32.
\<close>

definition lower_char :: "char \<Rightarrow> char" where
  "lower_char c =
     (let n = (of_char c :: nat) in if 65 \<le> n \<and> n \<le> 90 then char_of (n + 32) else c)"

definition lower :: "string \<Rightarrow> string" where
  "lower s = map lower_char s"

definition endswith :: "string \<Rightarrow> string \<Rightarrow> bool" where
  "endswith s suffix_str =
     (length suffix_str \<le> length s \<and> drop (length s - length suffix_str) s = suffix_str)"

definition isspace :: "char \<Rightarrow> bool" where
  "isspace c = (let n = (of_char c :: nat) in (9 \<le> n \<and> n \<le> 13) \<or> (28 \<le> n \<and> n \<le> 32))"

definition strip :: "string \<Rightarrow> string" where
  "strip s = rev (dropWhile isspace (rev (dropWhile isspace s)))"

text \<open>Truthiness of a value that is \<^verbatim>\<open>None\<close> or a \<^verbatim>\<open>str\<close>: the empty string is false too.\<close>

definition truthy :: "string option \<Rightarrow> bool" where
  "truthy v = (case v of None \<Rightarrow> False | Some s \<Rightarrow> s \<noteq> [])"

subsection \<open>Data\<close>

text \<open>
  An entry of a listing page is a dictionary; the script reads its \<^verbatim>\<open>Key\<close> and its
  \<^verbatim>\<open>Size\<close> only.
\<close>

record s3_object =
  Key :: string
  Size :: nat

text \<open>The keyword arguments of \<^verbatim>\<open>list_objects_v2\<close> and the fields read from its response.\<close>

record list_params =
  Bucket :: string
  MaxKeys :: nat
  ContinuationToken :: "string option"

record list_response =
  Contents :: "s3_object list option"
  IsTruncated :: "bool option"
  NextContinuationToken :: "string option"

text \<open>The arguments of \<^verbatim>\<open>delete_objects\<close> and the fields read from its response.\<close>

record delete_params =
  DeleteBucket :: string
  Objects :: "string list"
  Quiet :: bool

record delete_error =
  ErrorKey :: string
  Message :: string

record delete_response =
  Errors :: "delete_error list option"
  Deleted :: "string list option"

datatype exn = ClientError string | NoCredentialsError | EOFError | OtherException string

text \<open>
  The client is a parameter of the model: two operations on a remote store of any type,
  each returning the response or raising.
\<close>

record 'st s3_client =
  list_objects_v2 :: "list_params \<Rightarrow> 'st \<Rightarrow> (exn + list_response) \<times> 'st"
  delete_objects :: "delete_params \<Rightarrow> 'st \<Rightarrow> (exn + delete_response) \<times> 'st"

text \<open>One constructor for each \<^verbatim>\<open>print\<close> of the script, carrying the values it formats.\<close>

datatype message =
    MsgListing string
  | MsgFoundInBatch nat
  | MsgErrorListing string
  | MsgTotalFound nat
  | MsgSomeDeletionsFailed
  | MsgDeletionError string string
  | MsgDeleted nat
  | MsgErrorDeletingBatch string
  | MsgImagesFound nat nat
  | MsgStarting string
  | MsgMode bool
  | MsgDryRun bool
  | MsgRule
  | MsgBucketEmpty
  | MsgNoMatching
  | MsgObjectsToDelete nat
  | MsgPreviewItem nat string nat
  | MsgMore nat
  | MsgDryRunDone
  | MsgWarning nat
  | MsgCancelled
  | MsgStartingDeletion
  | MsgProcessingBatch nat nat
  | MsgFailedBatch nat
  | MsgCompleted nat

datatype event =
    Print message
  | ListObjectsV2 list_params
  | DeleteObjects delete_params
  | Input
  | Sleep

record 'st world =
  remote :: 'st
  stdin :: "string list"
  trace :: "event list"

definition emit :: "event \<Rightarrow> 'st world \<Rightarrow> 'st world" where
  "emit e w = w\<lparr>trace := trace w @ [e]\<rparr>"

definition print :: "message \<Rightarrow> 'st world \<Rightarrow> 'st world" where
  "print m w = emit (Print m) w"

subsection \<open>\<^verbatim>\<open>filter_images\<close>\<close>

definition image_extensions :: "string set" where
  "image_extensions =
     {''.jpg'', ''.jpeg'', ''.png'', ''.gif'', ''.bmp'', ''.tiff'', ''.tif'',
      ''.webp'', ''.svg'', ''.ico'', ''.avif'', ''.heic'', ''.heif''}"

text \<open>The body of the \<^verbatim>\<open>for\<close> loop, over the objects still to visit.\<close>

fun filter_images_loop :: "s3_object list \<Rightarrow> s3_object list \<Rightarrow> s3_object list" where
  "filter_images_loop image_objects [] = image_objects"
| "filter_images_loop image_objects (obj # objects) =
     (let key_lower = lower (Key obj) in
      if \<exists>ext \<in> image_extensions. endswith key_lower ext
      then filter_images_loop (image_objects @ [obj]) objects
      else filter_images_loop image_objects objects)"

definition filter_images :: "s3_object list \<Rightarrow> 'st world \<Rightarrow> s3_object list \<times> 'st world" where
  "filter_images objects w =
     (let image_objects = filter_images_loop [] objects in
      (image_objects, print (MsgImagesFound (length image_objects) (length objects)) w))"

subsection \<open>\<^verbatim>\<open>list_all_objects\<close>\<close>

text \<open>A request to the client is recorded in the trace and moves the remote store on.\<close>

definition call_list_objects_v2 ::
  "'st s3_client \<Rightarrow> list_params \<Rightarrow> 'st world \<Rightarrow> (exn + list_response) \<times> 'st world" where
  "call_list_objects_v2 c params w =
     (case list_objects_v2 c params (remote w) of
        (r, st) \<Rightarrow> (r, (emit (ListObjectsV2 params) w)\<lparr>remote := st\<rparr>))"

definition call_delete_objects ::
  "'st s3_client \<Rightarrow> delete_params \<Rightarrow> 'st world \<Rightarrow> (exn + delete_response) \<times> 'st world" where
  "call_delete_objects c params w =
     (case delete_objects c params (remote w) of
        (r, st) \<Rightarrow> (r, (emit (DeleteObjects params) w)\<lparr>remote := st\<rparr>))"

text \<open>
  The \<^verbatim>\<open>while True\<close> loop. It ends when a response is not truncated or when the client
  raises; a store that answers \<^verbatim>\<open>IsTruncated\<close> for ever keeps it running, which is the
  value \<open>None\<close>.
\<close>

partial_function (option) list_loop ::
  "'st s3_client \<Rightarrow> string \<Rightarrow> s3_object list \<Rightarrow> string option \<Rightarrow> 'st world
     \<Rightarrow> ((exn + s3_object list) \<times> 'st world) option" where
  "list_loop c bucket_name objects continuation_token w =
     (let params = \<lparr>Bucket = bucket_name, MaxKeys = 1000,
                     ContinuationToken =
                       (if truthy continuation_token then continuation_token else None)\<rparr>
      in case call_list_objects_v2 c params w of
           (Inl e, w1) \<Rightarrow> Some (Inl e, w1)
         | (Inr response, w1) \<Rightarrow>
             (let objects' = (case Contents response of
                                Some contents \<Rightarrow> objects @ contents
                              | None \<Rightarrow> objects);
                  w2 = (case Contents response of
                          Some contents \<Rightarrow> print (MsgFoundInBatch (length contents)) w1
                        | None \<Rightarrow> w1)
              in if \<not> (case IsTruncated response of Some t \<Rightarrow> t | None \<Rightarrow> False)
                 then Some (Inr objects', w2)
                 else list_loop c bucket_name objects' (NextContinuationToken response) w2))"

declare list_loop.simps [code]

text \<open>Only \<^verbatim>\<open>ClientError\<close> is caught; any other exception leaves the method.\<close>

definition list_all_objects ::
  "'st s3_client \<Rightarrow> string \<Rightarrow> 'st world \<Rightarrow> ((exn + s3_object list) \<times> 'st world) option" where
  "list_all_objects c bucket_name w =
     (case list_loop c bucket_name [] None (print (MsgListing bucket_name) w) of
        None \<Rightarrow> None
      | Some (Inl (ClientError e), w1) \<Rightarrow> Some (Inr [], print (MsgErrorListing e) w1)
      | Some (Inl e, w1) \<Rightarrow> Some (Inl e, w1)
      | Some (Inr objects, w1) \<Rightarrow> Some (Inr objects, print (MsgTotalFound (length objects)) w1))"

subsection \<open>\<^verbatim>\<open>delete_objects_batch\<close>\<close>

definition delete_objects_batch ::
  "'st s3_client \<Rightarrow> string \<Rightarrow> s3_object list \<Rightarrow> 'st world \<Rightarrow> (exn + bool) \<times> 'st world" where
  "delete_objects_batch c bucket_name objects w =
     (if objects = [] then (Inr True, w)
      else
        let delete_keys = map Key objects in
        case call_delete_objects c
               \<lparr>DeleteBucket = bucket_name, Objects = delete_keys, Quiet = False\<rparr> w of
          (Inl (ClientError e), w1) \<Rightarrow> (Inr False, print (MsgErrorDeletingBatch e) w1)
        | (Inl e, w1) \<Rightarrow> (Inl e, w1)
        | (Inr response, w1) \<Rightarrow>
            (case Errors response of
               Some (error # errors) \<Rightarrow>
                 (Inr False,
                  fold (\<lambda>err. print (MsgDeletionError (ErrorKey err) (Message err)))
                    (error # errors) (print MsgSomeDeletionsFailed w1))
             | _ \<Rightarrow>
                 (Inr True,
                  case Deleted response of
                    Some deleted \<Rightarrow> print (MsgDeleted (length deleted)) w1
                  | None \<Rightarrow> w1)))"

subsection \<open>\<^verbatim>\<open>clean_bucket\<close>\<close>

definition batch_size :: nat where
  "batch_size = 1000"

text \<open>\<^verbatim>\<open>range(0, stop, step)\<close> for a positive step.\<close>

definition py_range :: "nat \<Rightarrow> nat \<Rightarrow> nat list" where
  "py_range stop step = map (\<lambda>k. k * step) [0..<(stop + step - 1) div step]"

text \<open>The slice \<^verbatim>\<open>objects_to_delete[i:i + batch_size]\<close>.\<close>

definition batch_at :: "'a list \<Rightarrow> nat \<Rightarrow> 'a list" where
  "batch_at objects_to_delete i = take batch_size (drop i objects_to_delete)"

text \<open>The \<^verbatim>\<open>for i in range(0, len(objects_to_delete), batch_size)\<close> loop, over the indices left.\<close>

fun delete_loop ::
  "'st s3_client \<Rightarrow> string \<Rightarrow> s3_object list \<Rightarrow> nat list \<Rightarrow> nat \<Rightarrow> 'st world
     \<Rightarrow> (exn + nat) \<times> 'st world" where
  "delete_loop c bucket_name objects_to_delete [] total_deleted w = (Inr total_deleted, w)"
| "delete_loop c bucket_name objects_to_delete (i # rest) total_deleted w =
     (let batch = batch_at objects_to_delete i;
          w1 = print (MsgProcessingBatch (i div batch_size + 1) (length batch)) w
      in case delete_objects_batch c bucket_name batch w1 of
           (Inl e, w2) \<Rightarrow> (Inl e, w2)
         | (Inr ok, w2) \<Rightarrow>
             (let total_deleted' = (if ok then total_deleted + length batch else total_deleted);
                  w3 = (if ok then w2 else print (MsgFailedBatch (i div batch_size + 1)) w2);
                  w4 = (if i + batch_size < length objects_to_delete then emit Sleep w3 else w3)
              in delete_loop c bucket_name objects_to_delete rest total_deleted' w4))"

text \<open>\<^verbatim>\<open>input\<close> takes the next line of standard input and raises at its end.\<close>

definition input :: "'st world \<Rightarrow> (exn + string) \<times> 'st world" where
  "input w =
     (case stdin w of
        [] \<Rightarrow> (Inl EOFError, emit Input w)
      | line # lines \<Rightarrow> (Inr line, (emit Input w)\<lparr>stdin := lines\<rparr>))"

definition preview :: "s3_object list \<Rightarrow> 'st world \<Rightarrow> 'st world" where
  "preview objects_to_delete w =
     (let w1 = print (MsgObjectsToDelete (length objects_to_delete)) w;
          w2 = fold (\<lambda>(i, obj). print (MsgPreviewItem (i + 1) (Key obj) (Size obj)))
                 (enumerate 0 (take 10 objects_to_delete)) w1
      in if length objects_to_delete > 10
         then print (MsgMore (length objects_to_delete - 10)) w2 else w2)"

definition clean_bucket ::
  "'st s3_client \<Rightarrow> string \<Rightarrow> bool \<Rightarrow> bool \<Rightarrow> 'st world \<Rightarrow> ((exn + unit) \<times> 'st world) option" where
  "clean_bucket c bucket_name images_only dry_run w =
     (let w0 = print MsgRule (print (MsgDryRun dry_run)
                 (print (MsgMode images_only) (print (MsgStarting bucket_name) w)))
      in case list_all_objects c bucket_name w0 of
           None \<Rightarrow> None
         | Some (Inl e, w1) \<Rightarrow> Some (Inl e, w1)
         | Some (Inr all_objects, w1) \<Rightarrow>
             if all_objects = [] then Some (Inr (), print MsgBucketEmpty w1)
             else
               let (objects_to_delete, w2) =
                     (if images_only then filter_images all_objects w1 else (all_objects, w1))
               in if objects_to_delete = [] then Some (Inr (), print MsgNoMatching w2)
                  else
                    let w3 = preview objects_to_delete w2
                    in if dry_run then Some (Inr (), print MsgDryRunDone w3)
                       else
                         case input (print (MsgWarning (length objects_to_delete)) w3) of
                           (Inl e, w4) \<Rightarrow> Some (Inl e, w4)
                         | (Inr line, w4) \<Rightarrow>
                             (let confirm = strip line
                              in if confirm \<noteq> ''DELETE'' then Some (Inr (), print MsgCancelled w4)
                                 else
                                   case delete_loop c bucket_name objects_to_delete
                                          (py_range (length objects_to_delete) batch_size) 0
                                          (print MsgStartingDeletion w4) of
                                     (Inl e, w5) \<Rightarrow> Some (Inl e, w5)
                                   | (Inr total_deleted, w5) \<Rightarrow>
                                       Some (Inr (), print (MsgCompleted total_deleted) w5)))"

subsection \<open>Notions of the specification\<close>

text \<open>
  A key ends with an extension, compared without regard to case, when one of its suffixes
  and the extension have the same lower-case form.
\<close>

definition ends_with_ignoring_case :: "string \<Rightarrow> string \<Rightarrow> bool" where
  "ends_with_ignoring_case key ext = (\<exists>suf \<in> set (suffixes key). lower suf = lower ext)"

definition is_image_key :: "string \<Rightarrow> bool" where
  "is_image_key key = (\<exists>ext \<in> image_extensions. ends_with_ignoring_case key ext)"

text \<open>The batches formed by the loop of \<^verbatim>\<open>clean_bucket\<close>, one for each index of the range.\<close>

definition batches :: "'a list \<Rightarrow> 'a list list" where
  "batches objects_to_delete =
     map (batch_at objects_to_delete) (py_range (length objects_to_delete) batch_size)"

text \<open>
  What a trace shows: the key lists of the delete requests, the batches announced, and the
  number of times the operator was prompted.
\<close>

fun delete_requests :: "event list \<Rightarrow> string list list" where
  "delete_requests [] = []"
| "delete_requests (DeleteObjects p # tr) = Objects p # delete_requests tr"
| "delete_requests (e # tr) = delete_requests tr"

fun batch_reports :: "event list \<Rightarrow> (nat \<times> nat) list" where
  "batch_reports [] = []"
| "batch_reports (Print (MsgProcessingBatch n k) # tr) = (n, k) # batch_reports tr"
| "batch_reports (e # tr) = batch_reports tr"

fun prompts :: "event list \<Rightarrow> nat" where
  "prompts [] = 0"
| "prompts (Input # tr) = Suc (prompts tr)"
| "prompts (e # tr) = prompts tr"

text \<open>The continuation tokens of the list requests of a trace, in order.\<close>

fun list_requests :: "event list \<Rightarrow> string option list" where
  "list_requests [] = []"
| "list_requests (ListObjectsV2 p # tr) = ContinuationToken p # list_requests tr"
| "list_requests (e # tr) = list_requests tr"

text \<open>The tallies announced at the end of a run.\<close>

fun tallies :: "event list \<Rightarrow> nat list" where
  "tallies [] = []"
| "tallies (Print (MsgCompleted n) # tr) = n # tallies tr"
| "tallies (e # tr) = tallies tr"



definition token_sent :: "string option \<Rightarrow> string option" where
  "token_sent tok = (if truthy tok then tok else None)"

text \<open>
  The events of listing a sequence of pages, starting with the token \<open>tok\<close>: a request for each
  page and, when the page has contents, the line that counts them.
\<close>

fun listing_events :: "string \<Rightarrow> string option \<Rightarrow> list_response list \<Rightarrow> event list" where
  "listing_events b tok [] = []"
| "listing_events b tok (p # ps) =
     ListObjectsV2 \<lparr>Bucket = b, MaxKeys = 1000, ContinuationToken = token_sent tok\<rparr>
     # (case Contents p of Some contents \<Rightarrow> [Print (MsgFoundInBatch (length contents))]
        | None \<Rightarrow> [])
     @ listing_events b (NextContinuationToken p) ps"

text \<open>The world once \<^verbatim>\<open>clean_bucket\<close> has printed its four opening lines.\<close>

definition announced :: "string \<Rightarrow> bool \<Rightarrow> bool \<Rightarrow> 'st world \<Rightarrow> 'st world" where
  "announced bucket_name images_only dry_run w =
     print MsgRule (print (MsgDryRun dry_run)
       (print (MsgMode images_only) (print (MsgStarting bucket_name) w)))"

text \<open>The objects selected for deletion: the image objects, or all of them.\<close>

definition selected :: "bool \<Rightarrow> s3_object list \<Rightarrow> s3_object list" where
  "selected images_only all_objects =
     (if images_only then filter (\<lambda>ob. is_image_key (Key ob)) all_objects else all_objects)"

text \<open>A client whose \<^verbatim>\<open>delete_objects\<close> raises nothing but \<^verbatim>\<open>ClientError\<close>.\<close>

definition raises_only_client_errors :: "'st s3_client \<Rightarrow> bool" where
  "raises_only_client_errors c =
     (\<forall>p st e. fst (delete_objects c p st) = Inl e \<longrightarrow> (\<exists>m. e = ClientError m))"

subsection \<open>Stores\<close>

definition w_init :: "'st \<Rightarrow> string list \<Rightarrow> 'st world" where
  "w_init st lines = \<lparr>remote = st, stdin = lines, trace = []\<rparr>"

definition obj :: "string \<Rightarrow> s3_object" where
  "obj k = \<lparr>Key = k, Size = 0\<rparr>"

text \<open>
  A store that counts the delete requests and fails the second one with a \<^verbatim>\<open>ClientError\<close>;
  every other request deletes all the keys it names.
\<close>

definition flaky :: "nat s3_client" where
  "flaky =
     \<lparr>list_objects_v2 =
        (\<lambda>p n. (Inr \<lparr>Contents = None, IsTruncated = None, NextContinuationToken = None\<rparr>, n)),
      delete_objects =
        (\<lambda>p n. (if n = 1 then Inl (ClientError ''SlowDown'')
                 else Inr \<lparr>Errors = None, Deleted = Some (Objects p)\<rparr>, Suc n))\<rparr>"

definition numbered :: "nat \<Rightarrow> s3_object list" where
  "numbered n = map (\<lambda>i. obj (replicate (Suc i) CHR ''k'')) [0..<n]"

text \<open>
  A store that replays scripted responses, one for each request, whatever the request
  says; a request beyond the script raises.
\<close>

record script =
  listings :: "(exn + list_response) list"
  deletions :: "(exn + delete_response) list"


text \<open>The world of a scripted store once the listings left are \<open>rest\<close> and the events \<open>es\<close> happened.\<close>

definition served :: "script world \<Rightarrow> (exn + list_response) list \<Rightarrow> event list \<Rightarrow> script world" where
  "served w rest es = w\<lparr>remote := (remote w)\<lparr>listings := rest\<rparr>, trace := trace w @ es\<rparr>"


text \<open>
  A store holding a list of objects. It lists them all on one page, and deletes the keys it
  is asked to delete except those under \<^verbatim>\<open>locked/\<close>, which it reports as errors.
\<close>

definition locked :: "string \<Rightarrow> bool" where
  "locked k = (take 7 k = ''locked/'')"

definition bucket :: "s3_object list s3_client" where
  "bucket =
     \<lparr>list_objects_v2 =
        (\<lambda>p st. (Inr \<lparr>Contents = (if st = [] then None else Some st),
                        IsTruncated = Some False, NextContinuationToken = None\<rparr>, st)),
      delete_objects =
        (\<lambda>p st. (Inr \<lparr>Errors = Some (map (\<lambda>k. \<lparr>ErrorKey = k, Message = ''Access Denied''\<rparr>)
                                         (filter locked (Objects p))),
                        Deleted = Some (filter (\<lambda>k. \<not> locked k) (Objects p))\<rparr>,
                  filter (\<lambda>ob. Key ob \<notin> set (Objects p) \<or> locked (Key ob)) st))\<rparr>"

section \<open>Properties\<close>

subsection \<open>\<^verbatim>\<open>filter_images\<close>\<close>

lemma filter_images_loop_filter:
  "filter_images_loop acc xs =
     acc @ filter (\<lambda>obj. \<exists>ext \<in> image_extensions. endswith (lower (Key obj)) ext) xs"
  by (induction xs arbitrary: acc) (simp_all add: Let_def)

lemma endswith_lower:
  "endswith (lower s) (lower t) \<longleftrightarrow> ends_with_ignoring_case s t"
proof
  assume h: "endswith (lower s) (lower t)"
  let ?n = "length s - length t"
  have "lower (drop ?n s) = lower t"
    using h by (simp add: endswith_def lower_def drop_map)
  moreover have "drop ?n s \<in> set (suffixes s)"
    by (simp add: suffix_drop)
  ultimately show "ends_with_ignoring_case s t"
    unfolding ends_with_ignoring_case_def by blast
next
  assume "ends_with_ignoring_case s t"
  then obtain suf where "suffix suf s" and l: "lower suf = lower t"
    by (auto simp: ends_with_ignoring_case_def)
  then obtain pre where "s = pre @ suf" by (auto simp: suffix_def)
  then have "lower s = lower pre @ lower t"
    using l by (simp add: lower_def)
  then show "endswith (lower s) (lower t)"
    by (simp add: endswith_def)
qed

lemma image_extensions_lower: "ext \<in> image_extensions \<Longrightarrow> lower ext = ext"
  by (auto simp: image_extensions_def lower_def lower_char_def)

lemma filter_images_is_filter:
  "fst (filter_images objects w) = filter (\<lambda>obj. is_image_key (Key obj)) objects"
proof -
  have "(\<exists>ext \<in> image_extensions. endswith (lower k) ext) \<longleftrightarrow> is_image_key k" for k
    unfolding is_image_key_def
    by (metis endswith_lower image_extensions_lower)
  then show ?thesis
    by (simp add: filter_images_def filter_images_loop_filter Let_def)
qed

text \<open>
  Claim C9. \<^verbatim>\<open>filter_images\<close> returns exactly the objects whose key ends, without regard to
  case, with one of the thirteen image extensions. The list returned does not depend on the
  world, and the world changes by the one summary line printed. Filtering twice gives what
  filtering once gives, and the empty list gives the empty list.
\<close>

theorem filter_images_selects_image_keys:
  "fst (filter_images objects w) = filter (\<lambda>obj. is_image_key (Key obj)) objects
   \<and> fst (filter_images objects w') = fst (filter_images objects w)
   \<and> snd (filter_images objects w) =
       print (MsgImagesFound (length (fst (filter_images objects w))) (length objects)) w
   \<and> fst (filter_images (fst (filter_images objects w)) w') = fst (filter_images objects w)
   \<and> fst (filter_images [] w) = []"
proof -
  have "fst (filter_images objects w') = fst (filter_images objects w)"
    by (simp add: filter_images_def Let_def)
  moreover have
    "snd (filter_images objects w) =
       print (MsgImagesFound (length (fst (filter_images objects w))) (length objects)) w"
    by (simp add: filter_images_def Let_def)
  moreover have
    "fst (filter_images (fst (filter_images objects w)) w') = fst (filter_images objects w)"
    by (simp add: filter_images_is_filter)
  moreover have "fst (filter_images [] w) = []"
    by (simp add: filter_images_is_filter)
  ultimately show ?thesis
    using filter_images_is_filter [of objects w] by simp
qed

theorem filter_images_selects_image_keys_witness:
  "fst (filter_images [obj ''a.PNG'', obj ''notes.txt'', obj ''dir/b.Jpeg'', obj ''jpg'']
          (w_init () [])) =
     [obj ''a.PNG'', obj ''dir/b.Jpeg'']"
proof -
  have "filter (\<lambda>obj. is_image_key (Key obj))
          [obj ''a.PNG'', obj ''notes.txt'', obj ''dir/b.Jpeg'', obj ''jpg'']
        = [obj ''a.PNG'', obj ''dir/b.Jpeg'']"
    by code_simp
  then show ?thesis
    using filter_images_selects_image_keys
            [of "[obj ''a.PNG'', obj ''notes.txt'', obj ''dir/b.Jpeg'', obj ''jpg'']"
                "w_init () []" "w_init () []"]
    by (simp only:)
qed

text \<open>
  Claim C10. The list returned by \<^verbatim>\<open>filter_images\<close> is a subsequence of its argument: its
  elements are elements of the argument, in the same order. The argument is a value of the
  model, and the method touches neither the store nor standard input.
\<close>

theorem filter_images_subseq:
  "subseq (fst (filter_images objects w)) objects
   \<and> set (fst (filter_images objects w)) \<subseteq> set objects
   \<and> remote (snd (filter_images objects w)) = remote w
   \<and> stdin (snd (filter_images objects w)) = stdin w"
  by (simp add: filter_images_is_filter)
     (simp add: filter_images_def Let_def print_def emit_def)

theorem filter_images_subseq_witness:
  "subseq (fst (filter_images [obj ''x.gif'', obj ''y'', obj ''z.ICO''] (w_init () [])))
     [obj ''x.gif'', obj ''y'', obj ''z.ICO'']
   \<and> fst (filter_images [obj ''x.gif'', obj ''y'', obj ''z.ICO''] (w_init () [])) =
       [obj ''x.gif'', obj ''z.ICO'']"
proof -
  have "fst (filter_images [obj ''x.gif'', obj ''y'', obj ''z.ICO''] (w_init () [])) =
          [obj ''x.gif'', obj ''z.ICO'']"
    by code_simp
  then show ?thesis
    using filter_images_subseq [of "[obj ''x.gif'', obj ''y'', obj ''z.ICO'']" "w_init () []"]
    by simp
qed

subsection \<open>The batches of the delete phase\<close>

lemma print_simps [simp]:
  "trace (print m w) = trace w @ [Print m]" "remote (print m w) = remote w"
  "stdin (print m w) = stdin w"
  by (simp_all add: print_def emit_def)

lemma emit_simps [simp]:
  "trace (emit e w) = trace w @ [e]" "remote (emit e w) = remote w"
  "stdin (emit e w) = stdin w"
  by (simp_all add: emit_def)

lemma batch_size_pos: "0 < batch_size"
  by (simp add: batch_size_def)

lemma length_py_range: "length (py_range n step) = (n + step - 1) div step"
  by (simp add: py_range_def)

lemma py_range_nth: "j < length (py_range n step) \<Longrightarrow> py_range n step ! j = j * step"
  by (simp add: py_range_def)

lemma py_range_less:
  assumes "0 < step" "i \<in> set (py_range n step)" shows "i < n"
proof -
  from assms(2) obtain k where k: "k < (n + step - 1) div step" and i: "i = k * step"
    by (auto simp: py_range_def)
  from k have "Suc k \<le> (n + step - 1) div step" by simp
  then have "Suc k * step \<le> n + step - 1"
    using assms(1) by (simp add: less_eq_div_iff_mult_less_eq)
  then show ?thesis using i assms(1) by simp
qed

lemma concat_slices:
  "concat (map (\<lambda>k. take m (drop (k * m) xs)) [0..<n]) = take (n * m) xs"
proof (induction n)
  case 0 show ?case by simp
next
  case (Suc n)
  have "take (n * m) xs @ take m (drop (n * m) xs) = take (n * m + m) xs"
    by (simp add: take_add)
  with Suc show ?case by (simp add: add.commute)
qed

lemma concat_batches: "concat (batches xs) = xs"
proof -
  let ?n = "(length xs + batch_size - 1) div batch_size"
  have "concat (batches xs) = take (?n * batch_size) xs"
    using concat_slices [of batch_size xs ?n]
    by (simp add: batches_def py_range_def batch_at_def comp_def)
  moreover have "length xs \<le> ?n * batch_size"
    by (simp add: batch_size_def)
  ultimately show ?thesis by simp
qed

lemma length_batches: "length (batches xs) = (length xs + 999) div 1000"
  by (simp add: batches_def length_py_range batch_size_def)

lemma ceiling_div_1000: "nat \<lceil>real n / 1000\<rceil> = (n + 999) div 1000"
proof -
  let ?q = "(n + 999) div 1000"
  have a: "n \<le> ?q * 1000" and b: "?q * 1000 < n + 1000" by arith+
  have "real n \<le> real (?q * 1000)" using a by (rule iffD2 [OF of_nat_le_iff])
  moreover have "real (?q * 1000) < real (n + 1000)" using b by (rule iffD2 [OF of_nat_less_iff])
  ultimately have "\<lceil>real n / 1000\<rceil> = int ?q"
    by (intro ceiling_unique) simp_all
  then show ?thesis by simp
qed

lemma batches_nth:
  "j < length (batches xs) \<Longrightarrow> batches xs ! j = take batch_size (drop (j * batch_size) xs)"
  by (simp add: batches_def py_range_nth batch_at_def)

lemma batch_bounds:
  assumes "b \<in> set (batches xs)" shows "length b \<le> batch_size \<and> b \<noteq> []"
proof -
  from assms obtain i where i: "i \<in> set (py_range (length xs) batch_size)"
    and b: "b = batch_at xs i"
    by (auto simp: batches_def)
  from i have "i < length xs" using py_range_less batch_size_pos by blast
  with b show ?thesis by (simp add: batch_at_def batch_size_def)
qed

lemma in_slice:
  assumes "x \<in> set (take m (drop k xs))"
  shows "\<exists>a. a < m \<and> k + a < length xs \<and> x = xs ! (k + a)"
proof -
  from assms obtain a where "a < length (take m (drop k xs))" "x = take m (drop k xs) ! a"
    by (auto simp: in_set_conv_nth)
  then have "a < m \<and> k + a < length xs \<and> x = xs ! (k + a)" by auto
  then show ?thesis ..
qed

lemma batches_disjoint:
  assumes d: "distinct (map f xs)" and ij: "i < j" and j: "j < length (batches xs)"
  shows "f ` set (batches xs ! i) \<inter> f ` set (batches xs ! j) = {}"
proof (rule ccontr)
  assume "\<not> ?thesis"
  then obtain x y where x: "x \<in> set (batches xs ! i)" and y: "y \<in> set (batches xs ! j)"
    and e: "f x = f y" by auto
  from x ij j obtain a where a: "a < batch_size" "i * batch_size + a < length xs"
    "x = xs ! (i * batch_size + a)"
    using in_slice [of x batch_size "i * batch_size" xs] by (auto simp: batches_nth)
  from y j obtain b where b: "j * batch_size + b < length xs" "y = xs ! (j * batch_size + b)"
    using in_slice [of y batch_size "j * batch_size" xs] by (auto simp: batches_nth)
  from ij have "Suc i * batch_size \<le> j * batch_size" by (simp del: mult_Suc)
  with a(1) have ne: "i * batch_size + a \<noteq> j * batch_size + b" by simp
  have "map f xs ! (i * batch_size + a) = map f xs ! (j * batch_size + b)"
    using a b e by simp
  with d a(2) b(1) have "i * batch_size + a = j * batch_size + b"
    by (simp add: nth_eq_iff_index_eq del: nth_map)
  with ne show False by contradiction
qed

subsection \<open>The delete loop\<close>

lemma delete_requests_append [simp]:
  "delete_requests (xs @ ys) = delete_requests xs @ delete_requests ys"
  by (induction xs rule: delete_requests.induct) simp_all

lemma batch_reports_append [simp]:
  "batch_reports (xs @ ys) = batch_reports xs @ batch_reports ys"
  by (induction xs rule: batch_reports.induct) simp_all

lemma fold_print_errors [simp]:
  "trace (fold (\<lambda>err. print (MsgDeletionError (ErrorKey err) (Message err))) errs w) =
     trace w @ map (\<lambda>err. Print (MsgDeletionError (ErrorKey err) (Message err))) errs"
  "remote (fold (\<lambda>err. print (MsgDeletionError (ErrorKey err) (Message err))) errs w) = remote w"
  "stdin (fold (\<lambda>err. print (MsgDeletionError (ErrorKey err) (Message err))) errs w) = stdin w"
  by (induction errs arbitrary: w) simp_all

lemma delete_requests_error_lines [simp]:
  "delete_requests (map (\<lambda>err. Print (MsgDeletionError (ErrorKey err) (Message err))) errs) = []"
  by (induction errs) simp_all

lemma batch_reports_error_lines [simp]:
  "batch_reports (map (\<lambda>err. Print (MsgDeletionError (ErrorKey err) (Message err))) errs) = []"
  by (induction errs) simp_all

lemma delete_objects_batch_trace:
  assumes "objs \<noteq> []"
  shows "delete_requests (trace (snd (delete_objects_batch c b objs w))) =
           delete_requests (trace w) @ [map Key objs]"
    and "batch_reports (trace (snd (delete_objects_batch c b objs w))) = batch_reports (trace w)"
  using assms
  by (auto simp: delete_objects_batch_def call_delete_objects_def Let_def
           split: prod.splits sum.splits exn.splits option.splits list.splits)

lemma delete_objects_batch_returns:
  assumes "raises_only_client_errors c"
  shows "\<exists>ok. fst (delete_objects_batch c b objs w) = Inr ok"
proof (cases "objs = []")
  case True then show ?thesis by (auto simp: delete_objects_batch_def)
next
  case False
  let ?p = "\<lparr>DeleteBucket = b, Objects = map Key objs, Quiet = False\<rparr>"
  show ?thesis
  proof (cases "fst (delete_objects c ?p (remote w))")
    case (Inl e)
    with assms obtain m where "e = ClientError m"
      unfolding raises_only_client_errors_def by blast
    with Inl False show ?thesis
      by (auto simp: delete_objects_batch_def call_delete_objects_def Let_def split: prod.splits)
  next
    case (Inr r)
    with False show ?thesis
      by (auto simp: delete_objects_batch_def call_delete_objects_def Let_def
               split: prod.splits option.splits list.splits)
  qed
qed

lemma delete_loop_completed:
  assumes "\<forall>i \<in> set is. i < length objs"
    and "delete_loop c b objs is tot w = (Inr tot', w')"
  shows "delete_requests (trace w') =
           delete_requests (trace w) @ map (\<lambda>i. map Key (batch_at objs i)) is
         \<and> batch_reports (trace w') =
           batch_reports (trace w) @ map (\<lambda>i. (i div batch_size + 1, length (batch_at objs i))) is"
  using assms
proof (induction "is" arbitrary: tot w)
  case Nil then show ?case by simp
next
  case (Cons i rest)
  let ?batch = "batch_at objs i"
  let ?w1 = "print (MsgProcessingBatch (i div batch_size + 1) (length ?batch)) w"
  from Cons.prems(1) have ne: "?batch \<noteq> []" by (simp add: batch_at_def batch_size_def)
  obtain r w2 where d: "delete_objects_batch c b ?batch ?w1 = (r, w2)" by fastforce
  with Cons.prems(2) obtain ok where r: "r = Inr ok"
    by (cases r) (simp_all add: Let_def)
  define t' where "t' = (if ok then tot + length ?batch else tot)"
  define w3 where "w3 = (if ok then w2 else print (MsgFailedBatch (i div batch_size + 1)) w2)"
  define w4 where "w4 = (if i + batch_size < length objs then emit Sleep w3 else w3)"
  from Cons.prems(2) d r have rec: "delete_loop c b objs rest t' w4 = (Inr tot', w')"
    by (auto simp: Let_def t'_def w3_def w4_def)
  have tr: "delete_requests (trace w4) = delete_requests (trace w) @ [map Key ?batch]"
       "batch_reports (trace w4) = batch_reports (trace w) @ [(i div batch_size + 1, length ?batch)]"
    using delete_objects_batch_trace [OF ne, of c b ?w1] d
    by (simp_all add: w4_def w3_def)
  from Cons.IH [OF _ rec] Cons.prems(1) tr show ?case by simp
qed

lemma delete_loop_returns:
  assumes "raises_only_client_errors c"
  shows "\<exists>tot' w'. delete_loop c b objs is tot w = (Inr tot', w')"
proof (induction "is" arbitrary: tot w)
  case Nil show ?case by simp
next
  case (Cons i rest)
  let ?batch = "batch_at objs i"
  let ?w1 = "print (MsgProcessingBatch (i div batch_size + 1) (length ?batch)) w"
  from delete_objects_batch_returns [OF assms, of b ?batch ?w1]
  obtain ok w2 where d: "delete_objects_batch c b ?batch ?w1 = (Inr ok, w2)"
    by (metis prod.collapse)
  show ?case using Cons.IH d by (simp add: Let_def)
qed

text \<open>
  Claim C1. For a list of \<open>N\<close> objects the delete phase forms \<open>\<lceil>N / 1000\<rceil>\<close> batches. Batch
  \<open>j\<close> is the slice of the list from index \<open>1000 j\<close>, of at most 1000 objects and never
  empty; the batches in order concatenate to the list, so their keys are, as a multiset,
  the keys of the list, and the object at index \<open>p\<close> is in batch \<open>p div 1000\<close>. When the
  keys of the list are distinct, no key is in two batches. A delete loop that runs to its
  end has sent exactly these batches, in order.
\<close>

theorem clean_bucket_batches_partition:
  "length (batches objs) = nat \<lceil>real (length objs) / 1000\<rceil>
   \<and> (\<forall>j < length (batches objs).
        batches objs ! j = take 1000 (drop (j * 1000) objs)
        \<and> length (batches objs ! j) \<le> 1000 \<and> batches objs ! j \<noteq> [])
   \<and> concat (batches objs) = objs
   \<and> mset (concat (map (map Key) (batches objs))) = mset (map Key objs)
   \<and> (\<forall>p < length objs. p div 1000 < length (batches objs)
        \<and> batches objs ! (p div 1000) ! (p mod 1000) = objs ! p)
   \<and> (distinct (map Key objs) \<longrightarrow>
        (\<forall>i j. i < j \<and> j < length (batches objs) \<longrightarrow>
           Key ` set (batches objs ! i) \<inter> Key ` set (batches objs ! j) = {}))
   \<and> (\<forall>(c :: 'st s3_client) b w tot w'.
        delete_loop c b objs (py_range (length objs) batch_size) 0 w = (Inr tot, w') \<longrightarrow>
        delete_requests (trace w') = delete_requests (trace w) @ map (map Key) (batches objs))"
proof -
  have 1: "length (batches objs) = nat \<lceil>real (length objs) / 1000\<rceil>"
    by (simp add: length_batches ceiling_div_1000)
  have 2: "\<forall>j < length (batches objs).
        batches objs ! j = take 1000 (drop (j * 1000) objs)
        \<and> length (batches objs ! j) \<le> 1000 \<and> batches objs ! j \<noteq> []"
  proof (intro allI impI)
    fix j assume j: "j < length (batches objs)"
    then have "batches objs ! j \<in> set (batches objs)" by simp
    then have "length (batches objs ! j) \<le> 1000 \<and> batches objs ! j \<noteq> []"
      using batch_bounds [of "batches objs ! j" objs] by (simp add: batch_size_def)
    moreover have "batches objs ! j = take 1000 (drop (j * 1000) objs)"
      using batches_nth [OF j] by (simp add: batch_size_def)
    ultimately show "batches objs ! j = take 1000 (drop (j * 1000) objs)
        \<and> length (batches objs ! j) \<le> 1000 \<and> batches objs ! j \<noteq> []"
      by blast
  qed
  have 3: "mset (concat (map (map Key) (batches objs))) = mset (map Key objs)"
    by (simp add: map_concat [symmetric] concat_batches)
  have 4: "\<forall>p < length objs. p div 1000 < length (batches objs)
        \<and> batches objs ! (p div 1000) ! (p mod 1000) = objs ! p"
  proof (intro allI impI)
    fix p assume p: "p < length objs"
    then have l: "p div 1000 < length (batches objs)"
      by (simp add: length_batches)
    have "p div 1000 * 1000 + p mod 1000 = p" by simp
    with p l show "p div 1000 < length (batches objs)
        \<and> batches objs ! (p div 1000) ! (p mod 1000) = objs ! p"
      by (simp add: batches_nth batch_size_def)
  qed
  have 5: "distinct (map Key objs) \<longrightarrow>
        (\<forall>i j. i < j \<and> j < length (batches objs) \<longrightarrow>
           Key ` set (batches objs ! i) \<inter> Key ` set (batches objs ! j) = {})"
    using batches_disjoint [of Key objs] by blast
  have 6: "\<forall>(c :: 'st s3_client) b w tot w'.
        delete_loop c b objs (py_range (length objs) batch_size) 0 w = (Inr tot, w') \<longrightarrow>
        delete_requests (trace w') = delete_requests (trace w) @ map (map Key) (batches objs)"
  proof (intro allI impI)
    fix c :: "'st s3_client" and b w tot w'
    assume "delete_loop c b objs (py_range (length objs) batch_size) 0 w = (Inr tot, w')"
    moreover have "\<forall>i \<in> set (py_range (length objs) batch_size). i < length objs"
      using py_range_less batch_size_pos by blast
    ultimately show
      "delete_requests (trace w') = delete_requests (trace w) @ map (map Key) (batches objs)"
      using delete_loop_completed [of "py_range (length objs) batch_size" objs c b 0 w tot w']
      by (simp add: batches_def)
  qed
  from 1 2 3 4 5 6 concat_batches [of objs] show ?thesis by blast
qed

lemma distinct_numbered: "distinct (map Key (numbered n))"
  by (simp add: numbered_def distinct_map comp_def obj_def inj_on_def)

lemma length_numbered: "length (numbered n) = n" by (simp add: numbered_def)


theorem clean_bucket_batches_partition_witness:
  "distinct (map Key (numbered 1001)) \<and> (0::nat) < 1 \<and> 1 < length (batches (numbered 1001))
   \<and> Key ` set (batches (numbered 1001) ! 0) \<inter> Key ` set (batches (numbered 1001) ! 1) = {}
   \<and> fst (delete_loop flaky ''b'' (numbered 3) (py_range (length (numbered 3)) batch_size) 0
            (w_init 0 [])) = Inr 3
   \<and> delete_requests (trace (snd (delete_loop flaky ''b'' (numbered 3)
            (py_range (length (numbered 3)) batch_size) 0 (w_init 0 [])))) =
       [[''k'', ''kk'', ''kkk'']]"
proof -
  note t = clean_bucket_batches_partition [of "numbered 1001"]
  have d: "distinct (map Key (numbered 1001))" by (rule distinct_numbered)
  have l: "1 < length (batches (numbered 1001))"
    by (simp add: length_batches length_numbered)
  from t d l have
    "Key ` set (batches (numbered 1001) ! 0) \<inter> Key ` set (batches (numbered 1001) ! 1) = {}"
    by (metis zero_less_one)
  moreover
  let ?r = "delete_loop flaky ''b'' (numbered 3) (py_range (length (numbered 3)) batch_size) 0
              (w_init 0 [])"
  have f: "fst ?r = Inr 3" by code_simp
  then have "?r = (Inr 3, snd ?r)" by (metis prod.collapse)
  with clean_bucket_batches_partition [of "numbered 3"]
  have "delete_requests (trace (snd ?r)) =
          delete_requests (trace (w_init (0::nat) [])) @ map (map Key) (batches (numbered 3))"
    by blast
  moreover have "map (map Key) (batches (numbered 3)) = [[''k'', ''kk'', ''kkk'']]"
    by code_simp
  ultimately show ?thesis using d l f by (simp add: w_init_def)
qed

lemma reports_py_range:
  "map (\<lambda>i. (i div batch_size + 1, length (batch_at objs i))) (py_range (length objs) batch_size)
   = map (\<lambda>j. (j + 1, length (batches objs ! j))) [0..<length (batches objs)]"
proof -
  let ?m = "(length objs + batch_size - 1) div batch_size"
  have "length (batches objs) = ?m" by (simp add: batches_def length_py_range)
  moreover have "j < ?m \<Longrightarrow> batches objs ! j = batch_at objs (j * batch_size)" for j
    by (simp add: batches_def py_range_def)
  ultimately show ?thesis
    using batch_size_pos by (simp add: py_range_def comp_def)
qed

text \<open>
  Claim C2. A \<^verbatim>\<open>ClientError\<close> raised by the store for a batch makes
  \<^verbatim>\<open>delete_objects_batch\<close> return \<^verbatim>\<open>False\<close>. Whatever batches fail in that way, or by errors
  listed in a response, the loop runs to its end: every batch is announced and sent, in
  order.
\<close>

theorem delete_loop_continues_after_failure:
  assumes "raises_only_client_errors c"
  shows "(\<forall>batch w0 m.
            batch \<noteq> [] \<and>
            fst (delete_objects c \<lparr>DeleteBucket = b, Objects = map Key batch, Quiet = False\<rparr>
                   (remote w0)) = Inl (ClientError m)
            \<longrightarrow> fst (delete_objects_batch c b batch w0) = Inr False)
       \<and> (\<exists>tot w'.
            delete_loop c b objs (py_range (length objs) batch_size) 0 w = (Inr tot, w')
          \<and> delete_requests (trace w') = delete_requests (trace w) @ map (map Key) (batches objs)
          \<and> batch_reports (trace w') =
              batch_reports (trace w) @
              map (\<lambda>j. (j + 1, length (batches objs ! j))) [0..<length (batches objs)])"
proof -
  have 1: "\<forall>batch w0 m.
            batch \<noteq> [] \<and>
            fst (delete_objects c \<lparr>DeleteBucket = b, Objects = map Key batch, Quiet = False\<rparr>
                   (remote w0)) = Inl (ClientError m)
            \<longrightarrow> fst (delete_objects_batch c b batch w0) = Inr False"
    by (auto simp: delete_objects_batch_def call_delete_objects_def Let_def split: prod.splits)
  from delete_loop_returns [OF assms, of b objs "py_range (length objs) batch_size" 0 w]
  obtain tot w' where
    r: "delete_loop c b objs (py_range (length objs) batch_size) 0 w = (Inr tot, w')"
    by blast
  have "\<forall>i \<in> set (py_range (length objs) batch_size). i < length objs"
    using py_range_less batch_size_pos by blast
  from delete_loop_completed [OF this r]
  have a: "delete_requests (trace w') =
             delete_requests (trace w) @
             map (\<lambda>i. map Key (batch_at objs i)) (py_range (length objs) batch_size)"
    and b: "batch_reports (trace w') =
              batch_reports (trace w) @
              map (\<lambda>i. (i div batch_size + 1, length (batch_at objs i)))
                (py_range (length objs) batch_size)"
    by blast+
  from a have "delete_requests (trace w') =
                 delete_requests (trace w) @ map (map Key) (batches objs)"
    by (simp add: batches_def)
  moreover from b have "batch_reports (trace w') =
              batch_reports (trace w) @
              map (\<lambda>j. (j + 1, length (batches objs ! j))) [0..<length (batches objs)]"
    by (simp only: reports_py_range)
  ultimately show ?thesis using r 1 by blast
qed

lemma flaky_raises_only_client_errors: "raises_only_client_errors flaky"
  by (simp add: raises_only_client_errors_def flaky_def)

lemma upt_3: "[0..<3] = [0, 1, 2::nat]"
  by (simp add: upt_rec)

lemma batches_2001:
  "batches (replicate 2001 x) = [replicate 1000 x, replicate 1000 x, [x]]"
  by (simp add: batches_def py_range_def batch_size_def batch_at_def upt_3)

theorem delete_loop_continues_after_failure_witness:
  "raises_only_client_errors flaky
   \<and> (\<exists>tot w'. delete_loop flaky ''b'' (replicate 2001 (obj ''k'')) (py_range 2001 batch_size) 0
                 (w_init 0 []) = (Inr tot, w')
        \<and> delete_requests (trace w') = [replicate 1000 ''k'', replicate 1000 ''k'', [''k'']]
        \<and> batch_reports (trace w') = [(1, 1000), (2, 1000), (3, 1)])"
  using delete_loop_continues_after_failure
          [OF flaky_raises_only_client_errors, of "''b''" "replicate 2001 (obj ''k'')" "w_init 0 []"]
        flaky_raises_only_client_errors
  by (simp add: batches_2001 w_init_def obj_def upt_3 numeral_2_eq_2 numeral_3_eq_3)

subsection \<open>The listing loop\<close>

lemma prompts_append [simp]: "prompts (xs @ ys) = prompts xs + prompts ys"
  by (induction xs rule: prompts.induct) simp_all

lemma list_requests_append [simp]:
  "list_requests (xs @ ys) = list_requests xs @ list_requests ys"
  by (induction xs rule: list_requests.induct) simp_all

lemma call_list_effects:
  assumes "call_list_objects_v2 c p w = (r, w1)"
  shows "stdin w1 = stdin w" "trace w1 = trace w @ [ListObjectsV2 p]"
  using assms by (auto simp: call_list_objects_v2_def split: prod.splits)

lemma list_loop_effects:
  assumes "list_loop c b objs tok w = Some y"
  shows "stdin (snd y) = stdin w
     \<and> delete_requests (trace (snd y)) = delete_requests (trace w)
     \<and> prompts (trace (snd y)) = prompts (trace w)"
  using assms
proof (induction rule: list_loop.raw_induct [rotated 1, consumes 1, case_names step])
  case (step list_loop c b objs tok w y)
  let ?p = "\<lparr>Bucket = b, MaxKeys = 1000,
              ContinuationToken = (if truthy tok then tok else None)\<rparr>"
  obtain r w1 where c: "call_list_objects_v2 c ?p w = (r, w1)" by fastforce
  note e = call_list_effects [OF c]
  show ?case
  proof (cases r)
    case (Inl ex)
    with step(2) c e show ?thesis by (auto simp: Let_def)
  next
    case (Inr resp)
    define objs' where "objs' = (case Contents resp of Some cs \<Rightarrow> objs @ cs | None \<Rightarrow> objs)"
    define w2 where "w2 = (case Contents resp of
        Some cs \<Rightarrow> print (MsgFoundInBatch (length cs)) w1 | None \<Rightarrow> w1)"
    have w2: "stdin w2 = stdin w" "delete_requests (trace w2) = delete_requests (trace w)"
      "prompts (trace w2) = prompts (trace w)"
      using e by (auto simp: w2_def split: option.splits)
    show ?thesis
    proof (cases "case IsTruncated resp of Some t \<Rightarrow> t | None \<Rightarrow> False")
      case False
      with step(2) c Inr have "y = (Inr objs', w2)"
        by (simp add: Let_def objs'_def w2_def)
      with w2 show ?thesis by simp
    next
      case True
      with step(2) c Inr have "list_loop c b objs' (NextContinuationToken resp) w2 = Some y"
        by (simp add: Let_def objs'_def w2_def)
      from step(1) [OF this] w2 show ?thesis by simp
    qed
  qed
qed

lemma list_loop_same_listing:
  assumes "list_loop c' b objs tok w = Some y" and "list_objects_v2 c' = list_objects_v2 c"
  shows "list_loop c b objs tok w = Some y"
  using assms
proof (induction arbitrary: c
    rule: list_loop.raw_induct [rotated 1, consumes 1, case_names step])
  case (step list_loop c' b objs tok w y)
  let ?p = "\<lparr>Bucket = b, MaxKeys = 1000,
              ContinuationToken = (if truthy tok then tok else None)\<rparr>"
  obtain r w1 where c': "call_list_objects_v2 c' ?p w = (r, w1)" by fastforce
  then have c: "call_list_objects_v2 c ?p w = (r, w1)"
    using step(3) by (simp add: call_list_objects_v2_def)
  show ?case
  proof (cases r)
    case (Inl ex)
    with step(2) c c' show ?thesis
      by (subst list_loop.simps) (simp add: Let_def)
  next
    case (Inr resp)
    define objs' where "objs' = (case Contents resp of Some cs \<Rightarrow> objs @ cs | None \<Rightarrow> objs)"
    define w2 where "w2 = (case Contents resp of
        Some cs \<Rightarrow> print (MsgFoundInBatch (length cs)) w1 | None \<Rightarrow> w1)"
    show ?thesis
    proof (cases "case IsTruncated resp of Some t \<Rightarrow> t | None \<Rightarrow> False")
      case False
      with step(2) c c' Inr show ?thesis
        by (subst list_loop.simps) (simp add: Let_def)
    next
      case True
      with step(2) c' Inr have "list_loop c' b objs' (NextContinuationToken resp) w2 = Some y"
        by (simp add: Let_def objs'_def w2_def)
      from step(1) [OF this step(3)] True c Inr show ?thesis
        by (subst list_loop.simps) (simp add: Let_def objs'_def w2_def)
    qed
  qed
qed

lemma list_loop_ignores_delete:
  "list_loop (c\<lparr>delete_objects := d\<rparr>) b objs tok w = list_loop c b objs tok w"
proof (cases "list_loop (c\<lparr>delete_objects := d\<rparr>) b objs tok w")
  case (Some y)
  then show ?thesis using list_loop_same_listing [of "c\<lparr>delete_objects := d\<rparr>" b objs tok w y c] by simp
next
  case None
  show ?thesis
  proof (cases "list_loop c b objs tok w")
    case (Some y)
    then have "list_loop (c\<lparr>delete_objects := d\<rparr>) b objs tok w = Some y"
      using list_loop_same_listing [of c b objs tok w y "c\<lparr>delete_objects := d\<rparr>"] by simp
    with None show ?thesis by simp
  next
    case n: None
    with None show ?thesis by simp
  qed
qed

lemma tallies_append [simp]: "tallies (xs @ ys) = tallies xs @ tallies ys"
  by (induction xs rule: tallies.induct) simp_all

lemma served_simps [simp]:
  "listings (remote (served w rest es)) = rest"
  "deletions (remote (served w rest es)) = deletions (remote w)"
  "stdin (served w rest es) = stdin w"
  "trace (served w rest es) = trace w @ es"
  by (simp_all add: served_def)

lemma served_served [simp]: "served (served w r1 e1) r2 e2 = served w r2 (e1 @ e2)"
  by (simp add: served_def)

lemma print_served [simp]: "print m (served w rest es) = served w rest (es @ [Print m])"
  by (simp add: served_def print_def emit_def)








lemma other_listing_events [simp]:
  "delete_requests (listing_events b tok pages) = []"
  "prompts (listing_events b tok pages) = 0"
  by (induction pages arbitrary: tok) (auto split: option.splits)


lemma token_sent_simps [simp]:
  "token_sent None = None" "token_sent (Some []) = None" "t \<noteq> [] \<Longrightarrow> token_sent (Some t) = Some t"
  by (simp_all add: token_sent_def truthy_def)





lemma clean_bucket_empty_listing:
  assumes "list_all_objects c b (announced b images_only dry_run w) = Some (Inr [], w1)"
  shows "clean_bucket c b images_only dry_run w = Some (Inr (), print MsgBucketEmpty w1)"
  using assms by (simp add: clean_bucket_def announced_def)




subsection \<open>The whole run\<close>

lemma list_all_objects_effects:
  assumes "list_all_objects c b w = Some (r, w1)"
  shows "stdin w1 = stdin w"
    and "delete_requests (trace w1) = delete_requests (trace w)"
    and "prompts (trace w1) = prompts (trace w)"
proof -
  from assms obtain y where y: "list_loop c b [] None (print (MsgListing b) w) = Some y"
    by (cases "list_loop c b [] None (print (MsgListing b) w)")
       (simp_all add: list_all_objects_def)
  from list_loop_effects [OF y]
  have e: "stdin (snd y) = stdin w" "delete_requests (trace (snd y)) = delete_requests (trace w)"
    "prompts (trace (snd y)) = prompts (trace w)"
    by simp_all
  from assms y have "\<exists>m. w1 = snd y \<or> w1 = print m (snd y)"
    by (cases y) (auto simp: list_all_objects_def split: sum.splits exn.splits)
  with e show "stdin w1 = stdin w"
    and "delete_requests (trace w1) = delete_requests (trace w)"
    and "prompts (trace w1) = prompts (trace w)"
    by auto
qed

lemma list_all_objects_ignores_delete:
  "list_all_objects (c\<lparr>delete_objects := d\<rparr>) b w = list_all_objects c b w"
  by (simp add: list_all_objects_def list_loop_ignores_delete)

lemma fold_print_lines [simp]:
  "trace (fold (\<lambda>(i, ob). print (f i ob)) xs w) = trace w @ map (\<lambda>(i, ob). Print (f i ob)) xs"
  "remote (fold (\<lambda>(i, ob). print (f i ob)) xs w) = remote w"
  "stdin (fold (\<lambda>(i, ob). print (f i ob)) xs w) = stdin w"
  by (induction xs arbitrary: w) (simp_all split: prod.splits)

lemma preview_lines_quiet [simp]:
  "delete_requests (map (\<lambda>(i, ob). Print (MsgPreviewItem (g i) (Key ob) (Size ob))) xs) = []"
  "prompts (map (\<lambda>(i, ob). Print (MsgPreviewItem (g i) (Key ob) (Size ob))) xs) = 0"
  by (induction xs) (simp_all split: prod.splits)

lemma preview_effects [simp]:
  "remote (preview objs w) = remote w" "stdin (preview objs w) = stdin w"
  "delete_requests (trace (preview objs w)) = delete_requests (trace w)"
  "prompts (trace (preview objs w)) = prompts (trace w)"
  by (simp_all add: preview_def Let_def)

lemma filter_images_effects [simp]:
  "remote (snd (filter_images objs w)) = remote w" "stdin (snd (filter_images objs w)) = stdin w"
  "delete_requests (trace (snd (filter_images objs w))) = delete_requests (trace w)"
  "prompts (trace (snd (filter_images objs w))) = prompts (trace w)"
  by (simp_all add: filter_images_def Let_def)

lemma announced_effects [simp]:
  "remote (announced b io dr w) = remote w" "stdin (announced b io dr w) = stdin w"
  "delete_requests (trace (announced b io dr w)) = delete_requests (trace w)"
  "prompts (trace (announced b io dr w)) = prompts (trace w)"
  by (simp_all add: announced_def)

lemma clean_bucket_listed:
  assumes "list_all_objects c b (announced b io dr w) = Some (Inr all_objects, w1)"
    and "all_objects \<noteq> []"
  shows "clean_bucket c b io dr w =
    (let objects_to_delete = selected io all_objects;
         w2 = (if io then snd (filter_images all_objects w1) else w1)
     in if objects_to_delete = [] then Some (Inr (), print MsgNoMatching w2)
        else
          let w3 = preview objects_to_delete w2
          in if dr then Some (Inr (), print MsgDryRunDone w3)
             else
               case input (print (MsgWarning (length objects_to_delete)) w3) of
                 (Inl e, w4) \<Rightarrow> Some (Inl e, w4)
               | (Inr line, w4) \<Rightarrow>
                   let confirm = strip line
                   in if confirm \<noteq> ''DELETE'' then Some (Inr (), print MsgCancelled w4)
                   else
                     case delete_loop c b objects_to_delete
                            (py_range (length objects_to_delete) batch_size) 0
                            (print MsgStartingDeletion w4) of
                       (Inl e, w5) \<Rightarrow> Some (Inl e, w5)
                     | (Inr total_deleted, w5) \<Rightarrow>
                         Some (Inr (), print (MsgCompleted total_deleted) w5))"
proof -
  have "(if io then filter_images all_objects w1 else (all_objects, w1)) =
          (selected io all_objects, if io then snd (filter_images all_objects w1) else w1)"
    using filter_images_is_filter [of all_objects w1]
    by (simp add: selected_def prod_eq_iff)
  then show ?thesis
    using assms by (simp add: clean_bucket_def announced_def Let_def)
qed

lemma clean_bucket_raised:
  assumes "list_all_objects c b (announced b io dr w) = Some (Inl e, w1)"
  shows "clean_bucket c b io dr w = Some (Inl e, w1)"
  using assms by (simp add: clean_bucket_def announced_def)

lemma clean_bucket_diverges:
  assumes "list_all_objects c b (announced b io dr w) = None"
  shows "clean_bucket c b io dr w = None"
  using assms by (simp add: clean_bucket_def announced_def)

lemma dry_run_listed:
  assumes "list_all_objects c b (announced b images_only True w) = Some (r, w1)"
  shows "\<exists>res w'. clean_bucket c b images_only True w = Some (res, w')
           \<and> delete_requests (trace w') = delete_requests (trace w)
           \<and> prompts (trace w') = prompts (trace w)
           \<and> remote w' = remote w1 \<and> stdin w' = stdin w"
proof (cases r)
  case (Inl e)
  with assms have "clean_bucket c b images_only True w = Some (Inl e, w1)"
    by (simp add: clean_bucket_raised)
  with list_all_objects_effects [OF assms] show ?thesis by simp
next
  case (Inr all_objects)
  note l = assms [unfolded Inr]
  show ?thesis
  proof (cases "all_objects = []")
    case True
    with l have "clean_bucket c b images_only True w = Some (Inr (), print MsgBucketEmpty w1)"
      by (simp add: clean_bucket_empty_listing)
    with list_all_objects_effects [OF assms] show ?thesis by simp
  next
    case False
    from clean_bucket_listed [OF l False] list_all_objects_effects [OF assms]
    show ?thesis by (simp add: Let_def)
  qed
qed

lemma dry_run_ignores_delete:
  "clean_bucket (c\<lparr>delete_objects := d\<rparr>) b images_only True w =
     clean_bucket c b images_only True w"
proof (cases "list_all_objects c b (announced b images_only True w)")
  case None
  then show ?thesis
    by (simp add: clean_bucket_diverges list_all_objects_ignores_delete)
next
  case (Some y)
  obtain r w1 where y: "y = (r, w1)" by (cases y)
  note l = Some [unfolded y]
  have l': "list_all_objects (c\<lparr>delete_objects := d\<rparr>) b (announced b images_only True w) =
              Some (r, w1)"
    using l by (simp add: list_all_objects_ignores_delete)
  show ?thesis
  proof (cases r)
    case (Inl e)
    with l l' show ?thesis by (simp add: clean_bucket_raised)
  next
    case (Inr all_objects)
    show ?thesis
    proof (cases "all_objects = []")
      case True
      with l l' Inr show ?thesis by (simp add: clean_bucket_empty_listing)
    next
      case False
      from clean_bucket_listed [OF l [unfolded Inr] False]
        clean_bucket_listed [OF l' [unfolded Inr] False]
      show ?thesis by (simp add: Let_def)
    qed
  qed
qed

text \<open>
  Claim C4. With \<^verbatim>\<open>dry_run\<close> the run does not depend on the delete operation of the client:
  replacing it by any other changes nothing, also when the listing never ends. Whenever the
  listing returns, with any objects and with or without \<^verbatim>\<open>images_only\<close>, \<^verbatim>\<open>clean_bucket\<close>
  returns; its trace has no delete request and no prompt, and the store is as the listing
  left it.
\<close>

theorem clean_bucket_dry_run:
  "clean_bucket (c\<lparr>delete_objects := d\<rparr>) b images_only True w =
     clean_bucket c b images_only True w
   \<and> (\<forall>r w1. list_all_objects c b (announced b images_only True w) = Some (r, w1) \<longrightarrow>
        (\<exists>res w'. clean_bucket c b images_only True w = Some (res, w')
           \<and> delete_requests (trace w') = delete_requests (trace w)
           \<and> prompts (trace w') = prompts (trace w)
           \<and> remote w' = remote w1 \<and> stdin w' = stdin w))"
  using dry_run_ignores_delete dry_run_listed
  by blast

theorem clean_bucket_dry_run_witness:
  "\<exists>res w'. clean_bucket bucket ''b'' True True (w_init [obj ''a.png'', obj ''b.txt''] []) =
               Some (res, w')
        \<and> delete_requests (trace w') = []
        \<and> prompts (trace w') = 0
        \<and> remote w' = [obj ''a.png'', obj ''b.txt'']
        \<and> stdin w' = []"
proof -
  let ?w = "w_init [obj ''a.png'', obj ''b.txt''] []"
  let ?l = "list_all_objects bucket ''b'' (announced ''b'' True True ?w)"
  have "map_option (remote \<circ> snd) ?l = Some [obj ''a.png'', obj ''b.txt'']"
    by code_simp
  then obtain r w1 where l: "?l = Some (r, w1)" and r: "remote w1 = [obj ''a.png'', obj ''b.txt'']"
    by (cases ?l) auto
  from clean_bucket_dry_run [of "delete_objects bucket" bucket "''b''" True ?w] l r
  show ?thesis
    by (simp add: w_init_def)
qed

text \<open>
  Claim C8. When the listing returns no object, or the objects selected for deletion are
  none, \<^verbatim>\<open>clean_bucket\<close> returns after a line that says so (the bucket is empty, or no
  object matches): the operator is not prompted, no delete request is sent, and the store
  is as the listing left it. This holds with and without \<^verbatim>\<open>dry_run\<close>.
\<close>

theorem clean_bucket_nothing_to_delete:
  assumes "list_all_objects c b (announced b images_only dry_run w) = Some (Inr all_objects, w1)"
    and "all_objects = [] \<or> selected images_only all_objects = []"
  shows "\<exists>w'. clean_bucket c b images_only dry_run w = Some (Inr (), w')
           \<and> last (trace w') = Print (if all_objects = [] then MsgBucketEmpty else MsgNoMatching)
           \<and> prompts (trace w') = prompts (trace w)
           \<and> delete_requests (trace w') = delete_requests (trace w)
           \<and> stdin w' = stdin w
           \<and> remote w' = remote w1"
proof (cases "all_objects = []")
  case True
  with assms(1) have "clean_bucket c b images_only dry_run w = Some (Inr (), print MsgBucketEmpty w1)"
    by (simp add: clean_bucket_empty_listing)
  with True list_all_objects_effects [OF assms(1)] show ?thesis by simp
next
  case False
  with assms(2) have s: "selected images_only all_objects = []" by simp
  let ?w2 = "if images_only then snd (filter_images all_objects w1) else w1"
  have "clean_bucket c b images_only dry_run w = Some (Inr (), print MsgNoMatching ?w2)"
    using clean_bucket_listed [OF assms(1) False] s by (simp add: Let_def)
  with False list_all_objects_effects [OF assms(1)] show ?thesis by simp
qed

theorem clean_bucket_nothing_to_delete_witness:
  "\<exists>w'. clean_bucket bucket ''b'' True False (w_init [obj ''a.txt''] [''DELETE'']) =
           Some (Inr (), w')
        \<and> last (trace w') = Print MsgNoMatching
        \<and> prompts (trace w') = 0
        \<and> delete_requests (trace w') = []
        \<and> stdin w' = [''DELETE'']
        \<and> remote w' = [obj ''a.txt'']"
proof -
  let ?w = "w_init [obj ''a.txt''] [''DELETE'']"
  let ?l = "list_all_objects bucket ''b'' (announced ''b'' True False ?w)"
  have "map_option fst ?l = Some (Inr [obj ''a.txt''])"
    and "map_option (remote \<circ> snd) ?l = Some [obj ''a.txt'']"
    by code_simp+
  then obtain w1 where l: "?l = Some (Inr [obj ''a.txt''], w1)" and r: "remote w1 = [obj ''a.txt'']"
    by (cases ?l) auto
  have s: "[obj ''a.txt''] = [] \<or> selected True [obj ''a.txt''] = []"
    by code_simp
  from clean_bucket_nothing_to_delete [OF l s] r show ?thesis
    by (simp add: w_init_def)
qed

subsection \<open>Confirmation and the first batch\<close>






lemma selected_Nil [simp]: "selected images_only [] = []"
  by (simp add: selected_def)





subsection \<open>The tally\<close>

text \<open>
  Claim C3, at a batch that fails in part. The bucket holds \<^verbatim>\<open>a.txt\<close> and
  \<^verbatim>\<open>locked/b.txt\<close>; the response to the one delete request confirms \<^verbatim>\<open>a.txt\<close> deleted and
  reports an error for \<^verbatim>\<open>locked/b.txt\<close>. The error is printed, the run goes on to its end, and
  the tally printed is 0, although one key was confirmed deleted and is gone from the store.
\<close>

theorem clean_bucket_partial_failure_evaluation:
  "clean_bucket bucket ''b'' False False
     (w_init [obj ''a.txt'', obj ''locked/b.txt''] [''DELETE'']) =
   Some (Inr (),
     \<lparr>remote = [obj ''locked/b.txt''], stdin = [],
      trace =
        [Print (MsgStarting ''b''), Print (MsgMode False), Print (MsgDryRun False),
         Print MsgRule, Print (MsgListing ''b''),
         ListObjectsV2 \<lparr>Bucket = ''b'', MaxKeys = 1000, ContinuationToken = None\<rparr>,
         Print (MsgFoundInBatch 2), Print (MsgTotalFound 2), Print (MsgObjectsToDelete 2),
         Print (MsgPreviewItem 1 ''a.txt'' 0), Print (MsgPreviewItem 2 ''locked/b.txt'' 0),
         Print (MsgWarning 2), Input, Print MsgStartingDeletion,
         Print (MsgProcessingBatch 1 2),
         DeleteObjects \<lparr>DeleteBucket = ''b'', Objects = [''a.txt'', ''locked/b.txt''],
                        Quiet = False\<rparr>,
         Print MsgSomeDeletionsFailed,
         Print (MsgDeletionError ''locked/b.txt'' ''Access Denied''),
         Print (MsgFailedBatch 1), Print (MsgCompleted 0)]\<rparr>)"
  by code_simp

theorem clean_bucket_partial_failure_evaluation_witness:
  "map_option (tallies \<circ> trace \<circ> snd)
     (clean_bucket bucket ''b'' False False
        (w_init [obj ''a.txt'', obj ''locked/b.txt''] [''DELETE''])) = Some [0]
   \<and> map_option (remote \<circ> snd)
     (clean_bucket bucket ''b'' False False
        (w_init [obj ''a.txt'', obj ''locked/b.txt''] [''DELETE''])) = Some [obj ''locked/b.txt'']"
  using clean_bucket_partial_failure_evaluation by simp

end
